theory Spec2Isabelle
  imports Main
begin

section \<open>Text primitives used by the simulator\<close>

text \<open>
  Python strings are modelled as \<^typ>\<open>string\<close>, one \<^typ>\<open>char\<close> per code point below
  256. The primitives below are the library calls the script makes: \<open>str.strip\<close>,
  \<open>str.split\<close>, \<open>str.upper\<close>, \<open>str.replace\<close>, \<open>str.startswith\<close>, \<open>str.endswith\<close>,
  \<open>re.split\<close> and \<open>re.match\<close>.
\<close>

text \<open>The characters for which \<open>str.isspace\<close> holds; \<open>strip()\<close> and the regex class
  \<open>\s\<close> both use this set.\<close>

definition is_space :: "char \<Rightarrow> bool" where
  "is_space c = (c \<in> set [CHR 0x09, CHR 0x0A, CHR 0x0B, CHR 0x0C, CHR 0x0D,
                           CHR 0x1C, CHR 0x1D, CHR 0x1E, CHR 0x1F, CHR 0x20,
                           CHR 0x85, CHR 0xA0])"

text \<open>\<open>s.strip()\<close>\<close>

definition strip :: "string \<Rightarrow> string" where
  "strip s = rev (dropWhile is_space (rev (dropWhile is_space s)))"

text \<open>\<open>s.split(c)\<close> for a one-character separator: never an empty list.\<close>

fun split_on :: "char \<Rightarrow> string \<Rightarrow> string list" where
  "split_on c [] = [Nil]"
| "split_on c (x # xs) =
     (if x = c then [] # split_on c xs
      else (case split_on c xs of
              [] \<Rightarrow> [x # Nil]
            | w # ws \<Rightarrow> (x # w) # ws))"

text \<open>
  \<open>s.upper()\<close> on the ASCII letters; every other character is kept. Python also
  changes some letters beyond ASCII, but neither such a letter nor what it is changed
  into occurs in a mnemonic table, in \<open>LABEL\<close>, or in the prefixes R and F, and the
  prefix test is only reached for tokens of ASCII letters and underscores, so the
  tests made on upper-cased text come out the same.
\<close>

definition upper_char :: "char \<Rightarrow> char" where
  "upper_char c =
     (case map_of (zip ''abcdefghijklmnopqrstuvwxyz'' ''ABCDEFGHIJKLMNOPQRSTUVWXYZ'') c of
        Some u \<Rightarrow> u
      | None \<Rightarrow> c)"

definition upper :: "string \<Rightarrow> string" where
  "upper s = map upper_char s"

definition startswith :: "string \<Rightarrow> string \<Rightarrow> bool" where
  "startswith s pre = (take (length pre) s = pre)"

definition endswith :: "string \<Rightarrow> string \<Rightarrow> bool" where
  "endswith s suf = (length suf \<le> length s \<and> drop (length s - length suf) s = suf)"

text \<open>The separator class \<open>[,\s]\<close> of the tokenizer.\<close>

definition is_sep :: "char \<Rightarrow> bool" where
  "is_sep c = (c = CHR '','' \<or> is_space c)"

text \<open>
  \<open>re.split(r'[,\s]+', s)\<close>: the text is cut at every maximal run of separators.
  \<open>cur\<close> is the piece being read and \<open>in_run\<close> says that the previous character was a
  separator; a separator at either end of the text leaves an empty piece there, as
  in Python.
\<close>

fun re_split_from :: "string \<Rightarrow> bool \<Rightarrow> string \<Rightarrow> string list" where
  "re_split_from cur in_run [] = [cur]"
| "re_split_from cur in_run (c # cs) =
     (if is_sep c then
        (if in_run then re_split_from cur True cs
         else cur # re_split_from [] True cs)
      else re_split_from (cur @ [c]) False cs)"

definition re_split :: "string \<Rightarrow> string list" where
  "re_split s = re_split_from [] False s"

text \<open>The character class \<open>[A-Za-z_]\<close>.\<close>

definition is_letter :: "char \<Rightarrow> bool" where
  "is_letter c = (c \<in> set ''ABCDEFGHIJKLMNOPQRSTUVWXYZabcdefghijklmnopqrstuvwxyz_'')"

text \<open>
  \<open>re.match(r'^[A-Za-z_]+$', p)\<close> as a truth value. Python's \<open>$\<close> also matches just
  before a final newline, which is kept here.
\<close>

definition re_match_label :: "string \<Rightarrow> bool" where
  "re_match_label p =
     (let q = (if p \<noteq> [] \<and> last p = CHR 0x0A then butlast p else p)
      in q \<noteq> [] \<and> list_all is_letter q)"

text \<open>\<open>p.split('(')[1].replace(')', '')\<close>, used only when \<open>'(' in p\<close>.\<close>

definition paren_base :: "string \<Rightarrow> string" where
  "paren_base p = filter (\<lambda>c. c \<noteq> CHR '')'') (split_on (CHR ''('') p ! 1)"

section \<open>The decoder: \<open>parse_instr\<close>\<close>

text \<open>The loop over \<open>parts[1:]\<close> of the store/branch/jump category; \<open>srcs\<close> is the list
  being appended to.\<close>

fun scan_read_only :: "string list \<Rightarrow> string list \<Rightarrow> string list" where
  "scan_read_only [] srcs = srcs"
| "scan_read_only (p # ps) srcs =
     (if CHR ''('' \<in> set p then scan_read_only ps (srcs @ [paren_base p])
      else if \<not> re_match_label p then scan_read_only ps (srcs @ [p])
      else if CHR ''$'' \<in> set p \<or> startswith (upper p) ''R'' \<or> startswith (upper p) ''F''
           then scan_read_only ps (srcs @ [p])
      else scan_read_only ps srcs)"

text \<open>The loop over \<open>parts[2:]\<close> of the default category.\<close>

fun scan_default :: "string list \<Rightarrow> string list \<Rightarrow> string list" where
  "scan_default [] srcs = srcs"
| "scan_default (p # ps) srcs =
     (if CHR ''('' \<in> set p then scan_default ps (srcs @ [paren_base p])
      else scan_default ps (srcs @ [p]))"

definition read_only_ops :: "string list" where
  "read_only_ops = [''S.D'', ''SW'', ''SB'', ''BEQ'', ''BNE'', ''JR'']"

text \<open>The tokens of a line: comment removed, stripped, split, empty pieces dropped.\<close>

definition tokens :: "string \<Rightarrow> string list" where
  "tokens instr =
     filter (\<lambda>p. p \<noteq> [])
       (re_split (strip (hd (split_on (CHR ''#'') instr))))"

text \<open>
  The result is Python's triple \<open>(op, dest, srcs)\<close>; \<open>None\<close> is \<^const>\<open>None\<close>, and a
  label is the triple whose first component is the text \<open>LABEL\<close>.
\<close>

definition parse_instr :: "string \<Rightarrow> string option \<times> string option \<times> string list" where
  "parse_instr instr =
     (case tokens instr of
        [] \<Rightarrow> (None, None, [])
      | p0 # args \<Rightarrow>
          (let op = upper p0 in
           if endswith op '':'' then (Some ''LABEL'', None, [])
           else if op \<in> set read_only_ops then (Some op, None, scan_read_only args [])
           else (case args of
                   [] \<Rightarrow> (Some op, None, [])
                 | d # rest \<Rightarrow> (Some op, Some d, scan_default rest []))))"

section \<open>The latency table: \<open>get_latency\<close>\<close>

definition get_latency :: "string option \<Rightarrow> int" where
  "get_latency op =
     (if op \<in> set [Some ''DIV.D'', Some ''DIV''] then 10
      else if op \<in> set [Some ''MUL.D'', Some ''MUL''] then 4
      else if op \<in> set [Some ''L.D'', Some ''LW''] then 2
      else 1)"

section \<open>The scheduler: \<open>analyze\<close>\<close>

text \<open>What the third column of a printed row says.\<close>

datatype action = Label | Bolha string | Executa "string option"

text \<open>One printed row of the table: cycle, instruction column, action column.\<close>

datatype row = Row (row_cycle: int) (row_text: string) (row_action: action)

text \<open>The variables the loop of \<open>analyze\<close> updates; \<open>printed\<close> is the table printed so
  far.\<close>

record loop_state =
  reg_ready_cycle :: "string \<rightharpoonup> int"
  current_cycle :: int
  total_stalls :: int
  printed :: "row list"

text \<open>Step 1, the loop over \<open>srcs\<close>: the accumulator is \<open>(max_stall, wait_reg)\<close>.\<close>

fun check_hazards ::
  "(string \<rightharpoonup> int) \<Rightarrow> int \<Rightarrow> string list \<Rightarrow> int \<times> string \<Rightarrow> int \<times> string" where
  "check_hazards tbl cur [] acc = acc"
| "check_hazards tbl cur (src # srcs) (max_stall, wait_reg) =
     (case tbl src of
        None \<Rightarrow> check_hazards tbl cur srcs (max_stall, wait_reg)
      | Some ready_at \<Rightarrow>
          if ready_at > cur then
            (let wait = ready_at - cur in
             if wait > max_stall then check_hazards tbl cur srcs (wait, src)
             else check_hazards tbl cur srcs (max_stall, wait_reg))
          else check_hazards tbl cur srcs (max_stall, wait_reg))"

text \<open>Step 2, \<open>for _ in range(max_stall)\<close>: one NOP row per iteration.\<close>

primrec insert_bubbles :: "nat \<Rightarrow> string \<Rightarrow> loop_state \<Rightarrow> loop_state" where
  "insert_bubbles 0 wait_reg st = st"
| "insert_bubbles (Suc n) wait_reg st =
     insert_bubbles n wait_reg
       (st\<lparr>printed := printed st @ [Row (current_cycle st) ''NOP'' (Bolha wait_reg)],
           current_cycle := current_cycle st + 1,
           total_stalls := total_stalls st + 1\<rparr>)"

text \<open>Steps 1 to 4 for a line that is not a label. \<open>if dest:\<close> is Python truthiness:
  neither \<open>None\<close> nor the empty text.\<close>

definition issue ::
  "loop_state \<Rightarrow> string \<Rightarrow> string option \<Rightarrow> string option \<Rightarrow> string list \<Rightarrow> loop_state" where
  "issue st line op dest srcs =
     (let (max_stall, wait_reg) =
            check_hazards (reg_ready_cycle st) (current_cycle st) srcs (0, []);
          st1 = (if max_stall > 0 then insert_bubbles (nat max_stall) wait_reg st else st);
          st2 = st1\<lparr>printed := printed st1 @ [Row (current_cycle st1) line (Executa op)]\<rparr>;
          st3 = (case dest of
                   None \<Rightarrow> st2
                 | Some d \<Rightarrow>
                     if d \<noteq> [] then
                       st2\<lparr>reg_ready_cycle :=
                             (reg_ready_cycle st2)(d \<mapsto> current_cycle st2 + get_latency op)\<rparr>
                     else st2)
      in st3\<lparr>current_cycle := current_cycle st3 + 1\<rparr>)"

text \<open>The body of \<open>for line in lines\<close>.\<close>

definition process_line :: "loop_state \<Rightarrow> string \<Rightarrow> loop_state" where
  "process_line st raw =
     (let line = strip raw in
      if line = [] then st
      else (case parse_instr line of
              (op, dest, srcs) \<Rightarrow>
                if op = Some ''LABEL'' then
                  st\<lparr>printed := printed st @ [Row (current_cycle st) line Label]\<rparr>
                else issue st line op dest srcs))"

definition run_lines :: "loop_state \<Rightarrow> string list \<Rightarrow> loop_state" where
  "run_lines st ls = foldl process_line st ls"

text \<open>The simulator object: its only attribute is the readiness table.\<close>

record simulator =
  sim_reg_ready_cycle :: "string \<rightharpoonup> int"

text \<open>What a call of \<open>analyze\<close> shows: the heading, the table, and the three numbers of
  the summary (\<open>len(lines)\<close>, \<open>total_stalls\<close>, \<open>exec_cycles\<close>); the last one is also the
  return value.\<close>

record report =
  heading :: string
  rows :: "row list"
  instr_count :: int
  stall_count :: int
  exec_cycles :: int

definition initial_state :: loop_state where
  "initial_state =
     \<lparr>reg_ready_cycle = Map.empty, current_cycle = 1, total_stalls = 0, printed = []\<rparr>"

definition code_lines :: "string \<Rightarrow> string list" where
  "code_lines code_str = split_on (CHR 0x0A) (strip code_str)"

definition analyze :: "simulator \<Rightarrow> string \<Rightarrow> string \<Rightarrow> report \<times> simulator" where
  "analyze sim code_str title =
     (let lines = code_lines code_str;
          st = run_lines initial_state lines
      in (\<lparr>heading = title,
           rows = printed st,
           instr_count = int (length lines),
           stall_count = total_stalls st,
           exec_cycles = current_cycle st - 1\<rparr>,
          sim\<lparr>sim_reg_ready_cycle := reg_ready_cycle st\<rparr>))"

section \<open>Notions of the specification\<close>

text \<open>
  The definitions of this section are not taken from the script: they say, in the words of
  the specification, what the script is expected to compute, and the theorems below
  compare the two.
\<close>

text \<open>The waits \<open>max(0, ready_cycle[r] - current_cycle)\<close> of the sources that are in the
  readiness table, in operand order.\<close>

definition pending_waits :: "(string \<rightharpoonup> int) \<Rightarrow> int \<Rightarrow> string list \<Rightarrow> int list" where
  "pending_waits tbl cur srcs =
     map (\<lambda>s. max 0 (the (tbl s) - cur)) (filter (\<lambda>s. tbl s \<noteq> None) srcs)"

text \<open>Their maximum; 0 when no source is in the table.\<close>

definition required_wait :: "(string \<rightharpoonup> int) \<Rightarrow> int \<Rightarrow> string list \<Rightarrow> int" where
  "required_wait tbl cur srcs = Max (set (0 # pending_waits tbl cur srcs))"

text \<open>The first operand whose table entry is the given cycle (the empty text if none).\<close>

fun first_at :: "(string \<rightharpoonup> int) \<Rightarrow> int \<Rightarrow> string list \<Rightarrow> string" where
  "first_at tbl v [] = []"
| "first_at tbl v (s # srcs) = (if tbl s = Some v then s else first_at tbl v srcs)"

text \<open>The first source, in operand order, whose wait is the required wait.\<close>

definition first_waited :: "(string \<rightharpoonup> int) \<Rightarrow> int \<Rightarrow> string list \<Rightarrow> string" where
  "first_waited tbl cur srcs = first_at tbl (cur + required_wait tbl cur srcs) srcs"

text \<open>\<open>n\<close> bubble rows on the cycles \<open>cur\<close>, \<open>cur + 1\<close>, ..., all naming \<open>w\<close>.\<close>

definition bubble_rows :: "int \<Rightarrow> nat \<Rightarrow> string \<Rightarrow> row list" where
  "bubble_rows cur n w = map (\<lambda>k. Row (cur + int k) ''NOP'' (Bolha w)) [0..<n]"

text \<open>
  A schedule entry: the cycle of a label or executed instruction and the number of
  bubbles immediately before it. \<open>schedule\<close> reads the entries off the printed table.
\<close>

datatype entry = Entry (issue_cycle: int) (stalls_inserted: int) (is_label: bool)

fun schedule_from :: "int \<Rightarrow> row list \<Rightarrow> entry list" where
  "schedule_from k [] = []"
| "schedule_from k (Row c t Label # rs) = Entry c k True # schedule_from 0 rs"
| "schedule_from k (Row c t (Bolha w) # rs) = schedule_from (k + 1) rs"
| "schedule_from k (Row c t (Executa op) # rs) = Entry c k False # schedule_from 0 rs"

definition schedule :: "row list \<Rightarrow> entry list" where
  "schedule rs = schedule_from 0 rs"

text \<open>Consecutive entries have strictly increasing cycles, and each cycle is 1 + the
  previous cycle + the stalls before the entry.\<close>

fun consecutive_ok :: "entry list \<Rightarrow> bool" where
  "consecutive_ok (e1 # e2 # es) =
     (issue_cycle e1 < issue_cycle e2 \<and>
      issue_cycle e2 = 1 + issue_cycle e1 + stalls_inserted e2 \<and>
      consecutive_ok (e2 # es))"
| "consecutive_ok es = True"

text \<open>
  The same chain where a label does not consume its cycle: \<open>prev\<close> is the cycle of the
  last executed instruction (0 before the first); a label stands at \<open>prev + 1\<close> with no
  stalls and leaves \<open>prev\<close> as it is.
\<close>

fun chain_from :: "int \<Rightarrow> entry list \<Rightarrow> bool" where
  "chain_from prev [] = True"
| "chain_from prev (e # es) =
     (if is_label e
      then issue_cycle e = prev + 1 \<and> stalls_inserted e = 0 \<and> chain_from prev es
      else issue_cycle e = 1 + prev + stalls_inserted e \<and> chain_from (issue_cycle e) es)"

text \<open>The cycle of the last executed instruction of a schedule.\<close>

fun final_prev :: "int \<Rightarrow> entry list \<Rightarrow> int" where
  "final_prev prev [] = prev"
| "final_prev prev (e # es) = final_prev (if is_label e then prev else issue_cycle e) es"

text \<open>A token made of letters and underscores only.\<close>

definition pure_letters :: "string \<Rightarrow> bool" where
  "pure_letters p = (p \<noteq> [] \<and> list_all is_letter p)"

text \<open>A plain operand that is skipped as a branch label.\<close>

definition skipped_label :: "string \<Rightarrow> bool" where
  "skipped_label p =
     (pure_letters p \<and> \<not> startswith (upper p) ''R'' \<and> \<not> startswith (upper p) ''F'' \<and>
      CHR ''$'' \<notin> set p)"

text \<open>What one operand of a store, branch or jump contributes to the sources.\<close>

definition read_only_source :: "string \<Rightarrow> string list" where
  "read_only_source p =
     (if CHR ''('' \<in> set p then [paren_base p]
      else if skipped_label p then []
      else [p])"

text \<open>A state in the middle of a run, used as an example.\<close>

definition ex_state :: loop_state where
  "ex_state = \<lparr>reg_ready_cycle = [''F0'' \<mapsto> 4, ''F2'' \<mapsto> 4, ''R1'' \<mapsto> 2], current_cycle = 2, total_stalls = 0, printed = []\<rparr>"

text \<open>Whether a printed row is a bubble.\<close>

fun is_bubble :: "row \<Rightarrow> bool" where
  "is_bubble (Row c t (Bolha w)) = True"
| "is_bubble r = False"

text \<open>
  What every state of a run satisfies: the table does not end in a bubble, the schedule read
  off it is a chain, and the cycle counter is one past the last executed instruction.
\<close>

definition run_inv :: "loop_state \<Rightarrow> bool" where
  "run_inv st =
     ((printed st = [] \<or> \<not> is_bubble (last (printed st))) \<and>
      chain_from 0 (schedule (printed st)) \<and>
      final_prev 0 (schedule (printed st)) = current_cycle st - 1)"

text \<open>A line that the loop executes: not blank and not a label.\<close>

definition executed :: "string \<Rightarrow> bool" where
  "executed raw = (strip raw \<noteq> [] \<and> fst (parse_instr (strip raw)) \<noteq> Some ''LABEL'')"

text \<open>No source of an executed line is a destination of an earlier executed line;
  \<open>ds\<close> holds the destinations seen so far.\<close>

fun no_dependency :: "string set \<Rightarrow> string list \<Rightarrow> bool" where
  "no_dependency ds [] = True"
| "no_dependency ds (raw # rest) =
     (if executed raw then
        (case parse_instr (strip raw) of
           (op, dest, srcs) \<Rightarrow>
             (\<forall>s \<in> set srcs. s \<notin> ds) \<and>
             no_dependency (case dest of None \<Rightarrow> ds | Some d \<Rightarrow> insert d ds) rest)
      else no_dependency ds rest)"

section \<open>The latency table\<close>

text \<open>
  Claim C4. The latency is a fixed lookup on the mnemonic alone: 10 for the divide
  mnemonics, 4 for the multiply mnemonics, 2 for the load mnemonics, and 1 for every
  other mnemonic, recognised or not.
\<close>

theorem get_latency_lookup:
  "get_latency (Some ''DIV.D'') = 10 \<and> get_latency (Some ''DIV'') = 10 \<and>
   get_latency (Some ''MUL.D'') = 4 \<and> get_latency (Some ''MUL'') = 4 \<and>
   get_latency (Some ''L.D'') = 2 \<and> get_latency (Some ''LW'') = 2 \<and>
   (\<forall>op. op \<notin> set [Some ''DIV.D'', Some ''DIV'', Some ''MUL.D'', Some ''MUL'',
                     Some ''L.D'', Some ''LW''] \<longrightarrow> get_latency op = 1)"
  by (simp add: get_latency_def)

theorem get_latency_lookup_witness:
  "get_latency (Some ''ADD'') = 1 \<and> get_latency (Some ''FROB'') = 1 \<and>
   get_latency (Some ''S.D'') = 1"
  using get_latency_lookup by simp

section \<open>Hazard detection and bubbles\<close>

lemma required_wait_Nil: "required_wait tbl cur [] = 0"
  by (simp add: required_wait_def pending_waits_def)

lemma required_wait_Cons:
  "required_wait tbl cur (s # srcs) =
     (case tbl s of None \<Rightarrow> required_wait tbl cur srcs
      | Some r \<Rightarrow> max (max 0 (r - cur)) (required_wait tbl cur srcs))"
proof (cases "tbl s")
  case None
  then show ?thesis by (simp add: required_wait_def pending_waits_def)
next
  case (Some r)
  let ?S = "set (pending_waits tbl cur srcs)"
  have "Max (insert (max 0 (r - cur)) (insert 0 ?S)) = max (max 0 (r - cur)) (Max (insert 0 ?S))"
    by (rule Max_insert) auto
  moreover have "set (0 # pending_waits tbl cur (s # srcs)) = insert (max 0 (r - cur)) (insert 0 ?S)"
    using Some by (auto simp: pending_waits_def)
  ultimately show ?thesis using Some by (simp add: required_wait_def)
qed

lemma required_wait_nonneg: "0 \<le> required_wait tbl cur srcs"
  by (simp add: required_wait_def)

lemma check_hazards_gen:
  "0 \<le> m \<Longrightarrow>
   check_hazards tbl cur srcs (m, w) =
     (max m (required_wait tbl cur srcs),
      if required_wait tbl cur srcs > m
      then first_at tbl (cur + required_wait tbl cur srcs) srcs else w)"
proof (induction srcs arbitrary: m w)
  case Nil
  then show ?case by (simp add: required_wait_Nil)
next
  case (Cons s srcs)
  have nn: "0 \<le> required_wait tbl cur srcs" by (rule required_wait_nonneg)
  show ?case
  proof (cases "tbl s")
    case None
    with Cons show ?thesis by (simp add: required_wait_Cons)
  next
    case (Some r)
    show ?thesis
    proof (cases "r > cur")
      case False
      with Some Cons nn show ?thesis
        by (auto simp: required_wait_Cons max_def)
    next
      case True
      show ?thesis
      proof (cases "r - cur > m")
        case big: True
        from Cons.prems big have "0 \<le> r - cur" by simp
        from Cons.IH[OF this, of s] Some True big Cons.prems nn show ?thesis
          by (auto simp: required_wait_Cons max_def Let_def)
      next
        case small: False
        from Cons.IH[OF Cons.prems, of w] Some True small Cons.prems nn show ?thesis
          by (auto simp: required_wait_Cons max_def Let_def)
      qed
    qed
  qed
qed

lemma check_hazards_eq:
  "check_hazards tbl cur srcs (0, []) =
     (required_wait tbl cur srcs,
      if required_wait tbl cur srcs > 0 then first_waited tbl cur srcs else [])"
  using check_hazards_gen[of 0 tbl cur srcs "[]"] required_wait_nonneg[of tbl cur srcs]
  by (simp add: first_waited_def max_def)

lemma insert_bubbles_eq:
  "insert_bubbles n w st =
     st\<lparr>printed := printed st @ bubble_rows (current_cycle st) n w,
        current_cycle := current_cycle st + int n,
        total_stalls := total_stalls st + int n\<rparr>"
proof (induction n arbitrary: st)
  case 0
  then show ?case by (simp add: bubble_rows_def)
next
  case (Suc n)
  have "bubble_rows (current_cycle st) (Suc n) w =
        Row (current_cycle st) ''NOP'' (Bolha w) # bubble_rows (current_cycle st + 1) n w"
    unfolding bubble_rows_def
    by (simp add: upt_rec[of 0 "Suc n"] map_Suc_upt[symmetric] del: upt_Suc) 
  then show ?case using Suc by (simp add: algebra_simps)
qed

lemma required_wait_in_srcs:
  assumes "0 < required_wait tbl cur srcs"
  shows "\<exists>s \<in> set srcs. tbl s = Some (cur + required_wait tbl cur srcs)"
proof -
  have "required_wait tbl cur srcs \<in> set (0 # pending_waits tbl cur srcs)"
    unfolding required_wait_def by (rule Max_in) auto
  with assms have "required_wait tbl cur srcs \<in> set (pending_waits tbl cur srcs)" by auto
  then obtain s where s: "s \<in> set srcs" "tbl s \<noteq> None"
      "required_wait tbl cur srcs = max 0 (the (tbl s) - cur)"
    by (auto simp: pending_waits_def)
  with assms have "tbl s = Some (cur + required_wait tbl cur srcs)" by (auto simp: max_def split: if_splits)
  with s show ?thesis by blast
qed

lemma first_at_split:
  "\<exists>s \<in> set srcs. tbl s = Some v \<Longrightarrow>
   \<exists>pre post. srcs = pre @ first_at tbl v srcs # post \<and> tbl (first_at tbl v srcs) = Some v \<and>
              (\<forall>s \<in> set pre. tbl s \<noteq> Some v)"
proof (induction srcs)
  case Nil
  then show ?case by simp
next
  case (Cons a srcs)
  show ?case
  proof (cases "tbl a = Some v")
    case True
    then have "a # srcs = [] @ first_at tbl v (a # srcs) # srcs" by simp
    with True show ?thesis by (metis empty_iff first_at.simps(2) list.set(1))
  next
    case False
    with Cons.prems have "\<exists>s \<in> set srcs. tbl s = Some v" by auto
    from Cons.IH[OF this] obtain pre post where
      "srcs = pre @ first_at tbl v srcs # post" "tbl (first_at tbl v srcs) = Some v"
      "\<forall>s \<in> set pre. tbl s \<noteq> Some v" by blast
    with False have "a # srcs = (a # pre) @ first_at tbl v (a # srcs) # post \<and>
        tbl (first_at tbl v (a # srcs)) = Some v \<and> (\<forall>s \<in> set (a # pre). tbl s \<noteq> Some v)"
      by simp
    then show ?thesis by blast
  qed
qed

lemma issue_eq:
  "issue st line op dest srcs =
     (let W = required_wait (reg_ready_cycle st) (current_cycle st) srcs;
          c = current_cycle st + W
      in st\<lparr>printed := printed st @
                bubble_rows (current_cycle st) (nat W)
                  (first_waited (reg_ready_cycle st) (current_cycle st) srcs) @
                [Row c line (Executa op)],
            total_stalls := total_stalls st + W,
            reg_ready_cycle :=
              (case dest of None \<Rightarrow> reg_ready_cycle st
               | Some d \<Rightarrow> if d \<noteq> [] then (reg_ready_cycle st)(d \<mapsto> c + get_latency op)
                           else reg_ready_cycle st),
            current_cycle := c + 1\<rparr>)"
proof -
  have nn: "0 \<le> required_wait (reg_ready_cycle st) (current_cycle st) srcs"
    by (rule required_wait_nonneg)
  show ?thesis
  proof (cases "0 < required_wait (reg_ready_cycle st) (current_cycle st) srcs")
    case True
    then show ?thesis
      by (simp add: issue_def check_hazards_eq insert_bubbles_eq Let_def split: option.splits)
  next
    case False
    with nn have "required_wait (reg_ready_cycle st) (current_cycle st) srcs = 0" by simp
    then show ?thesis
      by (simp add: issue_def check_hazards_eq Let_def bubble_rows_def split: option.splits)
  qed
qed

text \<open>
  Claim C1. When an instruction that is not a label is processed, the number of bubbles
  put before it is the maximum, over its sources that are in the readiness table, of
  \<open>max(0, ready_cycle - current_cycle)\<close> (0 if there is none): the stall counter
  grows by that number, the bubbles occupy that many consecutive cycles starting at the
  current one, the instruction executes on the cycle after them, and every bubble names
  the first source, in operand order, that attains the maximum.
\<close>

theorem issue_inserts_required_wait:
  "total_stalls (issue st line op dest srcs) =
     total_stalls st + required_wait (reg_ready_cycle st) (current_cycle st) srcs \<and>
   current_cycle (issue st line op dest srcs) =
     current_cycle st + required_wait (reg_ready_cycle st) (current_cycle st) srcs + 1 \<and>
   printed (issue st line op dest srcs) =
     printed st @
     bubble_rows (current_cycle st)
       (nat (required_wait (reg_ready_cycle st) (current_cycle st) srcs))
       (first_waited (reg_ready_cycle st) (current_cycle st) srcs) @
     [Row (current_cycle st + required_wait (reg_ready_cycle st) (current_cycle st) srcs)
        line (Executa op)] \<and>
   (pending_waits (reg_ready_cycle st) (current_cycle st) srcs \<noteq> [] \<longrightarrow>
      required_wait (reg_ready_cycle st) (current_cycle st) srcs =
      Max (set (pending_waits (reg_ready_cycle st) (current_cycle st) srcs))) \<and>
   (0 < required_wait (reg_ready_cycle st) (current_cycle st) srcs \<longrightarrow>
      (\<exists>pre post.
         srcs = pre @ first_waited (reg_ready_cycle st) (current_cycle st) srcs # post \<and>
         reg_ready_cycle st (first_waited (reg_ready_cycle st) (current_cycle st) srcs) =
           Some (current_cycle st + required_wait (reg_ready_cycle st) (current_cycle st) srcs) \<and>
         (\<forall>s \<in> set pre. reg_ready_cycle st s \<noteq>
           Some (current_cycle st + required_wait (reg_ready_cycle st) (current_cycle st) srcs))))"
proof -
  let ?tbl = "reg_ready_cycle st" and ?cur = "current_cycle st"
  let ?W = "required_wait ?tbl ?cur srcs"
  have a: "total_stalls (issue st line op dest srcs) = total_stalls st + ?W"
    by (simp add: issue_eq Let_def)
  have b: "current_cycle (issue st line op dest srcs) = ?cur + ?W + 1"
    by (simp add: issue_eq Let_def)
  have c: "printed (issue st line op dest srcs) =
     printed st @ bubble_rows ?cur (nat ?W) (first_waited ?tbl ?cur srcs) @
     [Row (?cur + ?W) line (Executa op)]"
    by (simp add: issue_eq Let_def)
  have d: "pending_waits ?tbl ?cur srcs \<noteq> [] \<longrightarrow> ?W = Max (set (pending_waits ?tbl ?cur srcs))"
  proof
    assume ne: "pending_waits ?tbl ?cur srcs \<noteq> []"
    have "\<forall>x \<in> set (pending_waits ?tbl ?cur srcs). 0 \<le> x" by (auto simp: pending_waits_def)
    with ne have "0 \<le> Max (set (pending_waits ?tbl ?cur srcs))"
      by (metis List.finite_set Max_ge_iff last_in_set set_empty)
    moreover have "Max (insert 0 (set (pending_waits ?tbl ?cur srcs))) =
          max 0 (Max (set (pending_waits ?tbl ?cur srcs)))"
      using ne by (intro Max_insert) auto
    ultimately show "?W = Max (set (pending_waits ?tbl ?cur srcs))"
      by (simp add: required_wait_def)
  qed
  have e: "0 < ?W \<longrightarrow> (\<exists>pre post.
         srcs = pre @ first_waited ?tbl ?cur srcs # post \<and>
         ?tbl (first_waited ?tbl ?cur srcs) = Some (?cur + ?W) \<and>
         (\<forall>s \<in> set pre. ?tbl s \<noteq> Some (?cur + ?W)))"
  proof
    assume "0 < ?W"
    from first_at_split[OF required_wait_in_srcs[OF this]]
    show "\<exists>pre post.
         srcs = pre @ first_waited ?tbl ?cur srcs # post \<and>
         ?tbl (first_waited ?tbl ?cur srcs) = Some (?cur + ?W) \<and>
         (\<forall>s \<in> set pre. ?tbl s \<noteq> Some (?cur + ?W))"
      by (simp add: first_waited_def)
  qed
  from a b c d e show ?thesis by blast
qed

theorem issue_inserts_required_wait_witness:
  "total_stalls (issue ex_state ''ADD.D F4, F0, F2'' (Some ''ADD.D'') (Some ''F4'') [''R1'', ''F0'', ''F2'']) = 2 \<and>
   current_cycle (issue ex_state ''ADD.D F4, F0, F2'' (Some ''ADD.D'') (Some ''F4'') [''R1'', ''F0'', ''F2'']) = 5 \<and>
   printed (issue ex_state ''ADD.D F4, F0, F2'' (Some ''ADD.D'') (Some ''F4'') [''R1'', ''F0'', ''F2'']) =
     [Row 2 ''NOP'' (Bolha ''F0''), Row 3 ''NOP'' (Bolha ''F0''),
      Row 4 ''ADD.D F4, F0, F2'' (Executa (Some ''ADD.D''))]"
proof -
  let ?srcs = "[''R1'', ''F0'', ''F2'']"
  let ?tbl = "[''F0'' \<mapsto> 4, ''F2'' \<mapsto> 4, ''R1'' \<mapsto> (2::int)]"
  note t = issue_inserts_required_wait[of ex_state "''ADD.D F4, F0, F2''" "Some ''ADD.D''" "Some ''F4''" ?srcs]
  have rw: "required_wait ?tbl 2 ?srcs = 2"
    by (simp add: required_wait_def pending_waits_def)
  have fw: "first_waited ?tbl 2 ?srcs = ''F0''"
    unfolding first_waited_def rw by simp
  from t show ?thesis
    by (simp add: ex_state_def rw fw bubble_rows_def numeral_2_eq_2)
qed

section \<open>Issue cycles and the readiness table\<close>

lemma run_lines_snoc: "run_lines st (ls @ [l]) = process_line (run_lines st ls) l"
  by (simp add: run_lines_def)

lemma process_line_issue:
  "parse_instr (strip raw) = (op, dest, srcs) \<Longrightarrow> strip raw \<noteq> [] \<Longrightarrow> op \<noteq> Some ''LABEL'' \<Longrightarrow>
   process_line st raw = issue st (strip raw) op dest srcs"
  by (simp add: process_line_def Let_def)

lemma process_line_label:
  "parse_instr (strip raw) = (Some ''LABEL'', dest, srcs) \<Longrightarrow> strip raw \<noteq> [] \<Longrightarrow>
   process_line st raw = st\<lparr>printed := printed st @ [Row (current_cycle st) (strip raw) Label]\<rparr>"
  by (simp add: process_line_def Let_def)

lemma process_line_blank: "strip raw = [] \<Longrightarrow> process_line st raw = st"
  by (simp add: process_line_def Let_def)

lemma required_wait_ge:
  assumes "s \<in> set srcs" "tbl s = Some r"
  shows "r - cur \<le> required_wait tbl cur srcs"
proof -
  from assms have "max 0 (r - cur) \<in> set (0 # pending_waits tbl cur srcs)"
    by (force simp: pending_waits_def)
  then have "max 0 (r - cur) \<le> required_wait tbl cur srcs"
    unfolding required_wait_def by (intro Max_ge) auto
  then show ?thesis by simp
qed

text \<open>
  Claim C2. Whatever lines came before, when a line that is not blank and not a label is
  processed, the row printed last is its execution, and every source of the line that
  was in the readiness table when the line was reached has a ready cycle no later than
  the cycle of that row: no instruction is issued before its sources are ready.
\<close>

theorem sources_ready_at_issue:
  assumes "parse_instr (strip raw) = (op, dest, srcs)"
    and "strip raw \<noteq> []" and "op \<noteq> Some ''LABEL''"
    and "s \<in> set srcs"
    and "reg_ready_cycle (run_lines initial_state pre) s = Some r"
  shows "row_action (last (printed (run_lines initial_state (pre @ [raw])))) = Executa op \<and>
         row_text (last (printed (run_lines initial_state (pre @ [raw])))) = strip raw \<and>
         r \<le> row_cycle (last (printed (run_lines initial_state (pre @ [raw]))))"
proof -
  let ?st = "run_lines initial_state pre"
  have "run_lines initial_state (pre @ [raw]) = issue ?st (strip raw) op dest srcs"
    using assms(1-3) by (simp add: run_lines_snoc process_line_issue)
  moreover have "r - current_cycle ?st \<le> required_wait (reg_ready_cycle ?st) (current_cycle ?st) srcs"
    using assms(4,5) by (rule required_wait_ge)
  ultimately show ?thesis by (simp add: issue_eq Let_def)
qed

theorem sources_ready_at_issue_witness:
  "reg_ready_cycle (run_lines initial_state [''L.D F0, 0(R1)'']) ''F0'' = Some 3 \<and>
   3 \<le> row_cycle (last (printed (run_lines initial_state ([''L.D F0, 0(R1)''] @ [''ADD.D F4, F0, F2'']))))"
proof -
  have p: "parse_instr (strip ''ADD.D F4, F0, F2'') = (Some ''ADD.D'', Some ''F4'', [''F0'', ''F2''])"
    by code_simp
  have n: "strip ''ADD.D F4, F0, F2'' \<noteq> []" by code_simp
  have l: "Some ''ADD.D'' \<noteq> Some ''LABEL''" by simp
  have m: "''F0'' \<in> set [''F0'', ''F2'']" by simp
  have t: "reg_ready_cycle (run_lines initial_state [''L.D F0, 0(R1)'']) ''F0'' = Some 3"
    by code_simp
  from sources_ready_at_issue[OF p n l m t] t show ?thesis by simp
qed

lemma tokens_nonempty: "p \<in> set (tokens x) \<Longrightarrow> p \<noteq> []"
  by (simp add: tokens_def)

lemma parse_instr_dest_nonempty:
  assumes "parse_instr x = (op, Some d, srcs)"
  shows "d \<noteq> []"
proof -
  from assms obtain p0 rest where "tokens x = p0 # d # rest"
    by (auto simp: parse_instr_def Let_def split: list.splits if_splits)
  then have "d \<in> set (tokens x)" by simp
  then show ?thesis by (rule tokens_nonempty)
qed

text \<open>
  Claim C3. Processing a line that is executed and has a destination maps the destination
  to the cycle of the execution row plus the latency of the mnemonic, replacing whatever
  the table held for it and changing no other register; a blank line, a label and an
  instruction without destination leave the readiness table as it was.
\<close>

theorem destination_ready_cycle:
  assumes "parse_instr (strip raw) = (op, dest, srcs)"
  shows "(strip raw \<noteq> [] \<and> op \<noteq> Some ''LABEL'' \<and> dest = Some d \<longrightarrow>
            row_action (last (printed (process_line st raw))) = Executa op \<and>
            reg_ready_cycle (process_line st raw) =
              (reg_ready_cycle st)
                (d \<mapsto> row_cycle (last (printed (process_line st raw))) + get_latency op)) \<and>
         (strip raw = [] \<or> op = Some ''LABEL'' \<or> dest = None \<longrightarrow>
            reg_ready_cycle (process_line st raw) = reg_ready_cycle st)"
proof (cases "strip raw = []")
  case True
  then show ?thesis by (simp add: process_line_blank)
next
  case ne: False
  show ?thesis
  proof (cases "op = Some ''LABEL''")
    case True
    with assms ne show ?thesis by (simp add: process_line_label)
  next
    case False
    from process_line_issue[OF assms ne False]
    have eq: "process_line st raw = issue st (strip raw) op dest srcs" .
    show ?thesis
    proof (cases dest)
      case None
      with ne False show ?thesis by (simp add: eq issue_eq Let_def)
    next
      case (Some d')
      with assms have "d' \<noteq> []" using parse_instr_dest_nonempty by blast
      with Some ne False show ?thesis by (simp add: eq issue_eq Let_def)
    qed
  qed
qed

theorem destination_ready_cycle_witness:
  "reg_ready_cycle (process_line ex_state ''L.D F0, 0(R1)'') = (reg_ready_cycle ex_state)(''F0'' \<mapsto> 2 + 2) \<and>
   reg_ready_cycle (process_line ex_state ''S.D F9, 0(R9)'') = reg_ready_cycle ex_state \<and>
   reg_ready_cycle (process_line ex_state ''Loop:'') = reg_ready_cycle ex_state"
proof -
  have p1: "parse_instr (strip ''L.D F0, 0(R1)'') = (Some ''L.D'', Some ''F0'', [''R1''])" by code_simp
  have p2: "parse_instr (strip ''S.D F9, 0(R9)'') = (Some ''S.D'', None, [''F9'', ''R9''])" by code_simp
  have p3: "parse_instr (strip ''Loop:'') = (Some ''LABEL'', None, [])" by code_simp
  have n1: "strip ''L.D F0, 0(R1)'' \<noteq> []" by code_simp
  have c1: "row_cycle (last (printed (process_line ex_state ''L.D F0, 0(R1)''))) = 2" by code_simp
  have "get_latency (Some ''L.D'') = 2" by (simp add: get_latency_def)
  with destination_ready_cycle[OF p1, of "''F0''" ex_state] n1 c1
    destination_ready_cycle[OF p2, of "''F9''" ex_state]
    destination_ready_cycle[OF p3, of "''F9''" ex_state]
  show ?thesis by simp
qed

section \<open>Whole runs: reset and summary\<close>

text \<open>
  Claim C8. \<open>analyze\<close> starts from an empty readiness table whatever the simulator
  object holds: analysing a second text on an object that has already analysed a first
  one gives the same report (table, stall count, elapsed cycles) and leaves the same
  readiness table as analysing it on a fresh object, and analysing the same text again
  gives the same report.
\<close>

theorem analyze_resets_state:
  "fst (analyze (snd (analyze sim s1 t1)) s2 t2) = fst (analyze \<lparr>sim_reg_ready_cycle = Map.empty\<rparr> s2 t2) \<and>
   sim_reg_ready_cycle (snd (analyze (snd (analyze sim s1 t1)) s2 t2)) =
     sim_reg_ready_cycle (snd (analyze \<lparr>sim_reg_ready_cycle = Map.empty\<rparr> s2 t2)) \<and>
   fst (analyze (snd (analyze sim s2 t2)) s2 t2) = fst (analyze sim s2 t2)"
  by (simp add: analyze_def Let_def)

text \<open>
  Claim C9. For the empty text, and for a text of blanks only, the table is empty and the
  stall count and the elapsed cycles are 0, but the summary counts one instruction:
  splitting the stripped text at line breaks gives one (empty) line, and the summary
  prints the number of lines.
\<close>

theorem empty_input_counts_one_line:
  "fst (analyze sim [] title) =
     \<lparr>heading = title, rows = [], instr_count = 1, stall_count = 0, exec_cycles = 0\<rparr> \<and>
   fst (analyze sim ''   '' title) =
     \<lparr>heading = title, rows = [], instr_count = 1, stall_count = 0, exec_cycles = 0\<rparr>"
  by (simp add: analyze_def Let_def code_lines_def strip_def is_space_def run_lines_def
      process_line_def initial_state_def)

text \<open>
  Claim C6. A label followed by one instruction without any register dependency: no
  stall and one elapsed cycle, while the summary counts two instructions, because it
  counts the label line.
\<close>

theorem label_counted_as_instruction:
  "fst (analyze sim (''Loop:'' @ [CHR 0x0A] @ ''ADD R1, R2, R3'') title) =
     \<lparr>heading = title,
      rows = [Row 1 ''Loop:'' Label, Row 1 ''ADD R1, R2, R3'' (Executa (Some ''ADD''))],
      instr_count = 2, stall_count = 0, exec_cycles = 1\<rparr>"
  by code_simp

section \<open>The schedule of a run\<close>

lemma bubble_rows_0: "bubble_rows c 0 w = []"
  by (simp add: bubble_rows_def)

lemma bubble_rows_Suc:
  "bubble_rows c (Suc n) w = Row c ''NOP'' (Bolha w) # bubble_rows (c + 1) n w"
  unfolding bubble_rows_def
  by (simp add: upt_rec[of 0 "Suc n"] map_Suc_upt[symmetric] del: upt_Suc)

lemma schedule_from_bubbles:
  "schedule_from k (bubble_rows c n w @ rs) = schedule_from (k + int n) rs"
proof (induction n arbitrary: k c)
  case 0
  then show ?case by (simp add: bubble_rows_0)
next
  case (Suc n)
  then show ?case by (simp add: bubble_rows_Suc algebra_simps)
qed

lemma schedule_from_append:
  "rs \<noteq> [] \<Longrightarrow> \<not> is_bubble (last rs) \<Longrightarrow>
   schedule_from k (rs @ new) = schedule_from k rs @ schedule_from 0 new"
proof (induction rs arbitrary: k)
  case Nil
  then show ?case by simp
next
  case (Cons r rs)
  obtain c t a where r: "r = Row c t a" by (cases r)
  show ?case
  proof (cases "rs = []")
    case True
    with Cons.prems r show ?thesis by (cases a) auto
  next
    case False
    with Cons r show ?thesis by (cases a) auto
  qed
qed

lemma schedule_append:
  "rs = [] \<or> \<not> is_bubble (last rs) \<Longrightarrow> schedule (rs @ new) = schedule rs @ schedule new"
proof (cases "rs = []")
  case True
  then show ?thesis by (simp add: schedule_def)
next
  case False
  moreover assume "rs = [] \<or> \<not> is_bubble (last rs)"
  ultimately show ?thesis using schedule_from_append[of rs 0 new] by (simp add: schedule_def)
qed

lemma chain_from_append:
  "chain_from p (es @ fs) = (chain_from p es \<and> chain_from (final_prev p es) fs)"
  by (induction es arbitrary: p) auto

lemma final_prev_append: "final_prev p (es @ fs) = final_prev (final_prev p es) fs"
  by (induction es arbitrary: p) auto

lemma run_inv_initial: "run_inv initial_state"
  by (simp add: run_inv_def initial_state_def schedule_def)

lemma schedule_issue_rows:
  "0 \<le> W \<Longrightarrow> schedule (bubble_rows c (nat W) w @ [Row c' line (Executa op)]) = [Entry c' W False]"
  by (simp add: schedule_def schedule_from_bubbles)

lemma run_inv_issue:
  assumes "run_inv st"
  shows "run_inv (issue st line op dest srcs)"
proof -
  let ?W = "required_wait (reg_ready_cycle st) (current_cycle st) srcs"
  let ?new = "bubble_rows (current_cycle st) (nat ?W)
                (first_waited (reg_ready_cycle st) (current_cycle st) srcs) @
              [Row (current_cycle st + ?W) line (Executa op)]"
  have nn: "0 \<le> ?W" by (rule required_wait_nonneg)
  have p: "printed (issue st line op dest srcs) = printed st @ ?new"
    by (simp add: issue_eq Let_def)
  have c: "current_cycle (issue st line op dest srcs) = current_cycle st + ?W + 1"
    by (simp add: issue_eq Let_def)
  from assms have cl: "printed st = [] \<or> \<not> is_bubble (last (printed st))"
    by (simp add: run_inv_def)
  have s: "schedule (printed st @ ?new) =
           schedule (printed st) @ [Entry (current_cycle st + ?W) ?W False]"
    using schedule_append[OF cl, of ?new] schedule_issue_rows[OF nn] by simp
  from assms show ?thesis
    unfolding run_inv_def p c s
    by (simp add: chain_from_append final_prev_append)
qed

lemma run_inv_process_line:
  assumes "run_inv st"
  shows "run_inv (process_line st raw)"
proof (cases "strip raw = []")
  case True
  with assms show ?thesis by (simp add: process_line_blank)
next
  case ne: False
  obtain op dest srcs where pr: "parse_instr (strip raw) = (op, dest, srcs)"
    by (cases "parse_instr (strip raw)")
  show ?thesis
  proof (cases "op = Some ''LABEL''")
    case True
    from assms have cl: "printed st = [] \<or> \<not> is_bubble (last (printed st))"
      by (simp add: run_inv_def)
    have s: "schedule (printed st @ [Row (current_cycle st) (strip raw) Label]) =
             schedule (printed st) @ [Entry (current_cycle st) 0 True]"
      using schedule_append[OF cl, of "[Row (current_cycle st) (strip raw) Label]"]
      by (simp add: schedule_def)
    from pr True ne have eq: "process_line st raw =
        st\<lparr>printed := printed st @ [Row (current_cycle st) (strip raw) Label]\<rparr>"
      by (simp add: process_line_label)
    from assms show ?thesis
      unfolding eq run_inv_def
      by (simp add: s chain_from_append final_prev_append)
  next
    case False
    with pr ne assms show ?thesis by (simp add: process_line_issue run_inv_issue)
  qed
qed

lemma run_inv_run_lines: "run_inv st \<Longrightarrow> run_inv (run_lines st ls)"
  unfolding run_lines_def
  by (induction ls arbitrary: st) (simp_all add: run_inv_process_line)

lemma schedule_from_stalls_nonneg:
  "0 \<le> k \<Longrightarrow> e \<in> set (schedule_from k rs) \<Longrightarrow> 0 \<le> stalls_inserted e"
  by (induction k rs rule: schedule_from.induct) auto

lemma chain_consecutive:
  assumes "chain_from p es" "\<forall>e \<in> set es. 0 \<le> stalls_inserted e"
  shows "consecutive_ok (filter (\<lambda>e. \<not> is_label e) es) \<and>
         (case filter (\<lambda>e. \<not> is_label e) es of [] \<Rightarrow> True
          | f # fs \<Rightarrow> issue_cycle f = 1 + p + stalls_inserted f)"
  using assms
proof (induction es arbitrary: p)
  case Nil
  then show ?case by simp
next
  case (Cons e es)
  show ?case
  proof (cases "is_label e")
    case True
    with Cons.prems have "chain_from p es" "\<forall>e \<in> set es. 0 \<le> stalls_inserted e" by simp_all
    from Cons.IH[OF this] True show ?thesis by simp
  next
    case False
    with Cons.prems(1)
    have both: "issue_cycle e = 1 + p + stalls_inserted e \<and> chain_from (issue_cycle e) es"
      by (metis chain_from.simps(2))
    from both have ch: "chain_from (issue_cycle e) es" by (rule conjunct2)
    from both have hd: "issue_cycle e = 1 + p + stalls_inserted e" by (rule conjunct1)
    from Cons.prems have nn: "\<forall>e \<in> set es. 0 \<le> stalls_inserted e" by simp
    note ih = Cons.IH[OF ch nn]
    show ?thesis
    proof (cases "filter (\<lambda>e. \<not> is_label e) es")
      case Nil
      with False hd show ?thesis by simp
    next
      case (Cons f fs)
      then have "f \<in> set es" by (metis filter_is_subset list.set_intros(1) subsetD)
      with nn have "0 \<le> stalls_inserted f" by blast
      with ih Cons False hd show ?thesis by simp
    qed
  qed
qed

text \<open>
  Claim C5, as amended. In every analysis the schedule read off the printed table is a chain
  in which a label does not consume its cycle: an executed instruction stands at 1 + the
  cycle of the executed instruction before it (0 before the first) + the stalls inserted
  before it, and a label stands, with no stalls, at the cycle the next instruction would
  take without stalls. So the entries other than labels have strictly increasing cycles
  and satisfy the formula of the claim among themselves.
\<close>

theorem executed_cycles_chain:
  "chain_from 0 (schedule (rows (fst (analyze sim code_str title)))) \<and>
   consecutive_ok (filter (\<lambda>e. \<not> is_label e)
     (schedule (rows (fst (analyze sim code_str title)))))"
proof -
  let ?st = "run_lines initial_state (code_lines code_str)"
  have r: "rows (fst (analyze sim code_str title)) = printed ?st"
    by (simp add: analyze_def Let_def)
  have inv: "run_inv ?st" by (rule run_inv_run_lines[OF run_inv_initial])
  then have ch: "chain_from 0 (schedule (printed ?st))" by (simp add: run_inv_def)
  have "\<forall>e \<in> set (schedule (printed ?st)). 0 \<le> stalls_inserted e"
    using schedule_from_stalls_nonneg[of 0] by (auto simp: schedule_def)
  from chain_consecutive[OF ch this] ch show ?thesis unfolding r by simp
qed

text \<open>
  Claim C5, as stated, fails when labels are included: a label and the instruction after
  it are printed on the same cycle.
\<close>

theorem label_shares_cycle:
  "\<not> consecutive_ok (schedule (rows (fst (analyze \<lparr>sim_reg_ready_cycle = Map.empty\<rparr>
       (''Loop:'' @ [CHR 0x0A] @ ''ADD R1, R2, R3'') ''t''))))"
  by code_simp

section \<open>The decoder\<close>

lemma split_on_nonempty: "split_on c xs \<noteq> []"
proof (cases xs)
  case Nil
  then show ?thesis by simp
next
  case (Cons x ys)
  then show ?thesis by (cases "split_on c ys") simp_all
qed

lemma split_on_eq: "split_on c (c # xs) = [] # split_on c xs"
  by simp

lemma split_on_neq:
  "x \<noteq> c \<Longrightarrow> split_on c (x # xs) = (x # hd (split_on c xs)) # tl (split_on c xs)"
  using split_on_nonempty[of c xs] by (cases "split_on c xs") simp_all

lemma hd_split_on: "hd (split_on c xs) = takeWhile (\<lambda>y. y \<noteq> c) xs"
proof (induction xs)
  case Nil
  show ?case by simp
next
  case (Cons x xs)
  show ?case
  proof (cases "x = c")
    case True
    then show ?thesis by (simp only: split_on_eq list.sel takeWhile.simps simp_thms if_False)
  next
    case False
    have "hd (split_on c (x # xs)) = x # hd (split_on c xs)"
      by (simp only: split_on_neq[OF False] list.sel)
    also have "\<dots> = x # takeWhile (\<lambda>y. y \<noteq> c) xs" by (simp only: Cons.IH)
    also have "\<dots> = takeWhile (\<lambda>y. y \<noteq> c) (x # xs)" using False by simp
    finally show ?thesis .
  qed
qed

lemma split_on_second:
  "c \<in> set p \<Longrightarrow>
   split_on c p ! 1 = takeWhile (\<lambda>y. y \<noteq> c) (tl (dropWhile (\<lambda>y. y \<noteq> c) p))"
proof (induction p)
  case Nil
  then show ?case by simp
next
  case (Cons x xs)
  show ?case
  proof (cases "x = c")
    case True
    have "split_on c (x # xs) ! 1 = hd (split_on c xs)"
      using split_on_nonempty[of c xs] unfolding True split_on_eq
      by (simp add: hd_conv_nth)
    also have "\<dots> = takeWhile (\<lambda>y. y \<noteq> c) xs" by (rule hd_split_on)
    also have "\<dots> = takeWhile (\<lambda>y. y \<noteq> c) (tl (dropWhile (\<lambda>y. y \<noteq> c) (x # xs)))"
      using True by simp
    finally show ?thesis .
  next
    case False
    with Cons.prems have in_xs: "c \<in> set xs" by simp
    obtain w ws where sp: "split_on c xs = w # ws"
      using split_on_nonempty[of c xs] by (cases "split_on c xs") auto
    have "split_on c (x # xs) ! 1 = (tl (split_on c xs)) ! 0"
      unfolding split_on_neq[OF False] by simp
    also have "\<dots> = split_on c xs ! 1" unfolding sp by simp
    also have "\<dots> = takeWhile (\<lambda>y. y \<noteq> c) (tl (dropWhile (\<lambda>y. y \<noteq> c) xs))"
      by (rule Cons.IH[OF in_xs])
    also have "\<dots> = takeWhile (\<lambda>y. y \<noteq> c) (tl (dropWhile (\<lambda>y. y \<noteq> c) (x # xs)))"
      using False by simp
    finally show ?thesis .
  qed
qed

lemma paren_base_eq:
  "CHR ''('' \<in> set p \<Longrightarrow>
   paren_base p =
     filter (\<lambda>c. c \<noteq> CHR '')'')
       (takeWhile (\<lambda>y. y \<noteq> CHR ''('') (tl (dropWhile (\<lambda>y. y \<noteq> CHR ''('') p)))"
  by (simp only: paren_base_def split_on_second)

lemma paren_base_subset:
  assumes "CHR ''('' \<in> set p"
  shows "set (paren_base p) \<subseteq> set p"
proof
  fix c assume "c \<in> set (paren_base p)"
  then have "c \<in> set (takeWhile (\<lambda>y. y \<noteq> CHR ''('') (tl (dropWhile (\<lambda>y. y \<noteq> CHR ''('') p)))"
    unfolding paren_base_eq[OF assms] by simp
  then have "c \<in> set (tl (dropWhile (\<lambda>y. y \<noteq> CHR ''('') p))" by (rule set_takeWhileD[THEN conjunct1])
  then have "c \<in> set (dropWhile (\<lambda>y. y \<noteq> CHR ''('') p)"
    by (cases "dropWhile (\<lambda>y. y \<noteq> CHR ''('') p") simp_all
  then show "c \<in> set p" by (rule set_dropWhileD)
qed

lemma paren_base_wellformed:
  assumes "CHR ''('' \<notin> set off" "CHR ''('' \<notin> set base" "CHR '')'' \<notin> set base"
  shows "paren_base (off @ CHR ''('' # base @ [CHR '')'']) = base"
proof -
  have in_p: "CHR ''('' \<in> set (off @ CHR ''('' # base @ [CHR '')''])" by simp
  have d: "dropWhile (\<lambda>y. y \<noteq> CHR ''('') (off @ CHR ''('' # base @ [CHR '')'']) =
           CHR ''('' # base @ [CHR '')'']"
    using assms(1) by (induction off) auto
  have t: "takeWhile (\<lambda>y. y \<noteq> CHR ''('') (base @ [CHR '')'']) = base @ [CHR '')'']"
    using assms(2) by (induction base) auto
  have f: "filter (\<lambda>c. c \<noteq> CHR '')'') base = base"
    using assms(3) by (induction base) auto
  show ?thesis unfolding paren_base_eq[OF in_p] d by (simp add: t f)
qed

lemma re_split_from_no_sep:
  "p \<in> set (re_split_from cur b s) \<Longrightarrow> \<forall>c \<in> set cur. \<not> is_sep c \<Longrightarrow> c \<in> set p \<Longrightarrow> \<not> is_sep c"
proof (induction cur b s rule: re_split_from.induct)
  case (1 cur in_run)
  then show ?case by simp
next
  case (2 cur in_run x cs)
  show ?case
  proof (cases "is_sep x")
    case sep: True
    show ?thesis
    proof (cases in_run)
      case True
      with sep "2.prems" have "p \<in> set (re_split_from cur True cs)" by simp
      from "2.IH"(1)[OF sep True this "2.prems"(2,3)] show ?thesis .
    next
      case False
      with sep "2.prems" have "p = cur \<or> p \<in> set (re_split_from [] True cs)" by simp
      then show ?thesis
      proof
        assume "p = cur"
        with "2.prems"(2,3) show ?thesis by blast
      next
        assume a: "p \<in> set (re_split_from [] True cs)"
        have "\<forall>c \<in> set ([]::string). \<not> is_sep c" by simp
        from "2.IH"(2)[OF sep False a this "2.prems"(3)] show ?thesis .
      qed
    qed
  next
    case False
    with "2.prems" have a: "p \<in> set (re_split_from (cur @ [x]) False cs)" by simp
    from False "2.prems"(2) have "\<forall>c \<in> set (cur @ [x]). \<not> is_sep c" by simp
    from "2.IH"(3)[OF False a this "2.prems"(3)] show ?thesis .
  qed
qed

lemma re_split_from_subset:
  "p \<in> set (re_split_from cur b s) \<Longrightarrow> set p \<subseteq> set cur \<union> set s"
proof (induction cur b s rule: re_split_from.induct)
  case (1 cur in_run)
  then show ?case by simp
next
  case (2 cur in_run x cs)
  show ?case
  proof (cases "is_sep x")
    case sep: True
    show ?thesis
    proof (cases in_run)
      case True
      with sep "2.prems" have "p \<in> set (re_split_from cur True cs)" by simp
      from "2.IH"(1)[OF sep True this] show ?thesis by auto
    next
      case False
      with sep "2.prems" have "p = cur \<or> p \<in> set (re_split_from [] True cs)" by simp
      then show ?thesis
      proof
        assume "p = cur"
        then show ?thesis by auto
      next
        assume a: "p \<in> set (re_split_from [] True cs)"
        from "2.IH"(2)[OF sep False a] show ?thesis by auto
      qed
    qed
  next
    case False
    with "2.prems" have a: "p \<in> set (re_split_from (cur @ [x]) False cs)" by simp
    from "2.IH"(3)[OF False a] show ?thesis by auto
  qed
qed

lemma strip_subset: "set (strip s) \<subseteq> set s"
proof
  fix c assume "c \<in> set (strip s)"
  then have "c \<in> set (dropWhile is_space (rev (dropWhile is_space s)))"
    by (simp add: strip_def)
  then have "c \<in> set (rev (dropWhile is_space s))" by (rule set_dropWhileD)
  then have "c \<in> set (dropWhile is_space s)" by simp
  then show "c \<in> set s" by (rule set_dropWhileD)
qed

lemma tokens_in_split:
  "p \<in> set (tokens x) \<Longrightarrow>
   p \<in> set (re_split_from [] False (strip (takeWhile (\<lambda>c. c \<noteq> CHR ''#'') x)))"
  by (simp add: tokens_def re_split_def hd_split_on)

lemma tokens_no_sep:
  assumes "p \<in> set (tokens x)" "c \<in> set p"
  shows "\<not> is_sep c"
proof -
  have "\<forall>c \<in> set ([]::string). \<not> is_sep c" by simp
  from re_split_from_no_sep[OF tokens_in_split[OF assms(1)] this assms(2)] show ?thesis .
qed

lemma tokens_no_hash:
  assumes "p \<in> set (tokens x)"
  shows "CHR ''#'' \<notin> set p"
proof
  assume "CHR ''#'' \<in> set p"
  with re_split_from_subset[OF tokens_in_split[OF assms]]
  have "CHR ''#'' \<in> set (strip (takeWhile (\<lambda>c. c \<noteq> CHR ''#'') x))" by auto
  with strip_subset have "CHR ''#'' \<in> set (takeWhile (\<lambda>c. c \<noteq> CHR ''#'') x)" by blast
  then show False by (auto dest: set_takeWhileD)
qed

lemma newline_is_sep: "is_sep (CHR 0x0A)"
  by (simp add: is_sep_def is_space_def)

lemma tokens_no_newline: "p \<in> set (tokens x) \<Longrightarrow> CHR 0x0A \<notin> set p"
  using tokens_no_sep[of p x "CHR 0x0A"] newline_is_sep by blast

lemma re_match_label_pure:
  assumes "CHR 0x0A \<notin> set p"
  shows "re_match_label p = pure_letters p"
proof (cases "p = []")
  case True
  then show ?thesis by (simp add: re_match_label_def pure_letters_def)
next
  case False
  then have "last p \<in> set p" by (rule last_in_set)
  with assms have "last p \<noteq> CHR 0x0A" by metis
  with False show ?thesis by (simp add: re_match_label_def pure_letters_def)
qed

lemma scan_read_only_step:
  "CHR 0x0A \<notin> set p \<Longrightarrow>
   scan_read_only (p # ps) srcs = scan_read_only ps (srcs @ read_only_source p)"
  by (simp add: re_match_label_pure read_only_source_def skipped_label_def)

lemma scan_read_only_eq:
  "\<forall>p \<in> set ps. CHR 0x0A \<notin> set p \<Longrightarrow>
   scan_read_only ps srcs = srcs @ concat (map read_only_source ps)"
proof (induction ps arbitrary: srcs)
  case Nil
  then show ?case by simp
next
  case (Cons p ps)
  from Cons.prems have a: "CHR 0x0A \<notin> set p" and b: "\<forall>p \<in> set ps. CHR 0x0A \<notin> set p"
    by simp_all
  show ?case
    unfolding scan_read_only_step[OF a] Cons.IH[OF b] by simp
qed

lemma scan_default_eq:
  "scan_default ps srcs =
     srcs @ map (\<lambda>p. if CHR ''('' \<in> set p then paren_base p else p) ps"
  by (induction ps arbitrary: srcs) simp_all

lemma takeWhile_hash_append:
  "takeWhile (\<lambda>c. c \<noteq> CHR ''#'') (a @ CHR ''#'' # b) = takeWhile (\<lambda>c. c \<noteq> CHR ''#'') a"
  by (induction a) simp_all

lemma tokens_comment:
  "tokens (a @ CHR ''#'' # b) = tokens (takeWhile (\<lambda>c. c \<noteq> CHR ''#'') a)"
  by (simp add: tokens_def hd_split_on takeWhile_hash_append)

lemma parse_instr_Nil: "tokens x = [] \<Longrightarrow> parse_instr x = (None, None, [])"
  by (simp add: parse_instr_def)

lemma parse_instr_label:
  "tokens x = p0 # args \<Longrightarrow> endswith (upper p0) '':'' \<Longrightarrow>
   parse_instr x = (Some ''LABEL'', None, [])"
  by (simp add: parse_instr_def)

lemma parse_instr_read_only:
  assumes "tokens x = p0 # args" "\<not> endswith (upper p0) '':''" "upper p0 \<in> set read_only_ops"
  shows "parse_instr x = (Some (upper p0), None, concat (map read_only_source args))"
proof -
  have "\<forall>p \<in> set args. CHR 0x0A \<notin> set p"
    using tokens_no_newline[of _ x] assms(1) by simp
  from scan_read_only_eq[OF this, of "[]"] assms show ?thesis
    by (simp add: parse_instr_def)
qed

lemma parse_instr_default_Nil:
  assumes "tokens x = [p0]" "\<not> endswith (upper p0) '':''" "upper p0 \<notin> set read_only_ops"
  shows "parse_instr x = (Some (upper p0), None, [])"
  using assms by (simp add: parse_instr_def)

lemma parse_instr_default_Cons:
  assumes "tokens x = p0 # d # rest" "\<not> endswith (upper p0) '':''"
    "upper p0 \<notin> set read_only_ops"
  shows "parse_instr x =
           (Some (upper p0), Some d,
            map (\<lambda>p. if CHR ''('' \<in> set p then paren_base p else p) rest)"
  using assms by (simp add: parse_instr_def scan_default_eq)

lemma read_only_source_mem:
  "s \<in> set (read_only_source p) \<Longrightarrow> s = p \<or> (CHR ''('' \<in> set p \<and> s = paren_base p)"
  by (cases "CHR ''('' \<in> set p"; cases "skipped_label p") (simp_all add: read_only_source_def)

lemma parse_instr_sources:
  assumes "parse_instr x = (op, dest, srcs)" "s \<in> set srcs"
  shows "\<exists>p \<in> set (tokens x). s = p \<or> (CHR ''('' \<in> set p \<and> s = paren_base p)"
proof (cases "tokens x")
  case Nil
  with assms show ?thesis by (simp add: parse_instr_Nil)
next
  case (Cons p0 args)
  show ?thesis
  proof (cases "endswith (upper p0) '':''")
    case True
    from parse_instr_label[OF Cons True] assms show ?thesis by simp
  next
    case ne: False
    show ?thesis
    proof (cases "upper p0 \<in> set read_only_ops")
      case True
      from parse_instr_read_only[OF Cons ne True] assms
      have "s \<in> set (concat (map read_only_source args))" by simp
      then obtain p where p: "p \<in> set args" "s \<in> set (read_only_source p)" by auto
      from read_only_source_mem[OF p(2)] p(1) Cons show ?thesis by auto
    next
      case False
      show ?thesis
      proof (cases args)
        case Nil
        with Cons have "tokens x = [p0]" by simp
        from parse_instr_default_Nil[OF this ne False] assms show ?thesis by simp
      next
        case (Cons d rest)
        with \<open>tokens x = p0 # args\<close> have t: "tokens x = p0 # d # rest" by simp
        from parse_instr_default_Cons[OF t ne False] assms
        have "s \<in> set (map (\<lambda>p. if CHR ''('' \<in> set p then paren_base p else p) rest)" by simp
        then obtain p where "p \<in> set rest"
          "s = (if CHR ''('' \<in> set p then paren_base p else p)" by auto
        with t show ?thesis by (cases "CHR ''('' \<in> set p") auto
      qed
    qed
  qed
qed

lemma parse_instr_dest_token:
  assumes "parse_instr x = (op, Some d, srcs)"
  shows "d \<in> set (tokens x)"
proof (cases "tokens x")
  case Nil
  with assms show ?thesis by (simp add: parse_instr_Nil)
next
  case (Cons p0 args)
  show ?thesis
  proof (cases "endswith (upper p0) '':''")
    case True
    from parse_instr_label[OF Cons True] assms show ?thesis by simp
  next
    case ne: False
    show ?thesis
    proof (cases "upper p0 \<in> set read_only_ops")
      case True
      from parse_instr_read_only[OF Cons ne True] assms show ?thesis by simp
    next
      case False
      show ?thesis
      proof (cases args)
        case Nil
        with Cons have "tokens x = [p0]" by simp
        from parse_instr_default_Nil[OF this ne False] assms show ?thesis by simp
      next
        case (Cons d' rest)
        with \<open>tokens x = p0 # args\<close> have t: "tokens x = p0 # d' # rest" by simp
        from parse_instr_default_Cons[OF t ne False] assms t show ?thesis by simp
      qed
    qed
  qed
qed

lemma parse_instr_read_only_result:
  assumes "parse_instr line = (Some op, dest, srcs)" "op \<in> set read_only_ops"
  shows "dest = None \<and> srcs = concat (map read_only_source (tl (tokens line)))"
proof (cases "tokens line")
  case Nil
  with assms show ?thesis by (simp add: parse_instr_Nil)
next
  case (Cons p0 args)
  have lab: "''LABEL'' \<notin> set read_only_ops" by (simp add: read_only_ops_def)
  show ?thesis
  proof (cases "endswith (upper p0) '':''")
    case True
    from parse_instr_label[OF Cons True] assms(1) have "op = ''LABEL''" by simp
    with assms(2) lab show ?thesis by simp
  next
    case ne: False
    show ?thesis
    proof (cases "upper p0 \<in> set read_only_ops")
      case True
      from parse_instr_read_only[OF Cons ne True] assms(1) Cons show ?thesis by simp
    next
      case False
      show ?thesis
      proof (cases args)
        case Nil
        with Cons have "tokens line = [p0]" by simp
        from parse_instr_default_Nil[OF this ne False] assms(1) have "op = upper p0" by simp
        with assms(2) False show ?thesis by simp
      next
        case (Cons d' rest)
        with \<open>tokens line = p0 # args\<close> have t: "tokens line = p0 # d' # rest" by simp
        from parse_instr_default_Cons[OF t ne False] assms(1) have "op = upper p0" by simp
        with assms(2) False show ?thesis by simp
      qed
    qed
  qed
qed

text \<open>
  Claim C7. When the mnemonic of a line is one of the store, branch and jump mnemonics,
  the decoded destination is absent and the sources are, operand by operand in order:
  for an operand with an opening parenthesis, the text between that parenthesis and the
  next one with every closing parenthesis removed, which for an operand of the form
  \<open>offset(base)\<close> is \<open>base\<close>; for any other operand, the operand itself,
  unless it is made of letters and underscores only, does not start with R or F in
  either case and has no dollar sign, in which case it is skipped.
\<close>

theorem read_only_operands:
  "(parse_instr line = (Some op, dest, srcs) \<and> op \<in> set read_only_ops \<longrightarrow>
      dest = None \<and> srcs = concat (map read_only_source (tl (tokens line)))) \<and>
   (CHR ''('' \<notin> set off \<and> CHR ''('' \<notin> set base \<and> CHR '')'' \<notin> set base \<longrightarrow>
      read_only_source (off @ CHR ''('' # base @ [CHR '')'']) = [base])"
proof -
  have a: "parse_instr line = (Some op, dest, srcs) \<and> op \<in> set read_only_ops \<longrightarrow>
      dest = None \<and> srcs = concat (map read_only_source (tl (tokens line)))"
    using parse_instr_read_only_result by blast
  have b: "CHR ''('' \<notin> set off \<and> CHR ''('' \<notin> set base \<and> CHR '')'' \<notin> set base \<longrightarrow>
      read_only_source (off @ CHR ''('' # base @ [CHR '')'']) = [base]"
    by (simp add: read_only_source_def paren_base_wellformed)
  from a b show ?thesis by (rule conjI)
qed

theorem read_only_operands_witness:
  "parse_instr ''S.D F4, 0(R1)'' = (Some ''S.D'', None, [''F4'', ''R1'']) \<and>
   [''F4'', ''R1''] = concat (map read_only_source (tl (tokens ''S.D F4, 0(R1)''))) \<and>
   read_only_source ''0(R1)'' = [''R1'']"
proof -
  have p1: "parse_instr ''S.D F4, 0(R1)'' = (Some ''S.D'', None, [''F4'', ''R1''])" by code_simp
  have m1: "''S.D'' \<in> set read_only_ops" by (simp add: read_only_ops_def)
  have h: "CHR ''('' \<notin> set ''0'' \<and> CHR ''('' \<notin> set ''R1'' \<and> CHR '')'' \<notin> set ''R1''" by simp
  from read_only_operands[of "''S.D F4, 0(R1)''" "''S.D''" None "[''F4'', ''R1'']" "''0''" "''R1''"]
    p1 m1 h
  show ?thesis by simp
qed

text \<open>
  Claim C10. Everything from the first \<open>#\<close> of a line on is dropped before the line is
  split into tokens: the decoded instruction is that of the text before the \<open>#\<close>, no
  decoded source or destination contains a \<open>#\<close>, and \<open>DADDUI R1, R1, #-8\<close> decodes
  with the single source \<open>R1\<close>.
\<close>

theorem comment_removed:
  "parse_instr (a @ CHR ''#'' # b) = parse_instr (takeWhile (\<lambda>c. c \<noteq> CHR ''#'') a) \<and>
   (parse_instr line = (op, dest, srcs) \<longrightarrow>
      (\<forall>s \<in> set srcs. CHR ''#'' \<notin> set s) \<and> (\<forall>d. dest = Some d \<longrightarrow> CHR ''#'' \<notin> set d)) \<and>
   parse_instr ''DADDUI R1, R1, #-8'' = (Some ''DADDUI'', Some ''R1'', [''R1''])"
proof -
  have a: "parse_instr (a @ CHR ''#'' # b) = parse_instr (takeWhile (\<lambda>c. c \<noteq> CHR ''#'') a)"
    by (simp only: parse_instr_def tokens_comment)
  have b: "parse_instr line = (op, dest, srcs) \<longrightarrow>
      (\<forall>s \<in> set srcs. CHR ''#'' \<notin> set s) \<and> (\<forall>d. dest = Some d \<longrightarrow> CHR ''#'' \<notin> set d)"
  proof (intro impI conjI ballI allI)
    fix s assume p: "parse_instr line = (op, dest, srcs)" and s: "s \<in> set srcs"
    from parse_instr_sources[OF p s] obtain t where t: "t \<in> set (tokens line)"
      "s = t \<or> (CHR ''('' \<in> set t \<and> s = paren_base t)" by blast
    from t(1) have nh: "CHR ''#'' \<notin> set t" by (rule tokens_no_hash)
    from t(2) show "CHR ''#'' \<notin> set s"
    proof
      assume "s = t"
      with nh show ?thesis by simp
    next
      assume "CHR ''('' \<in> set t \<and> s = paren_base t"
      with paren_base_subset[of t] nh show ?thesis by blast
    qed
  next
    fix d assume p: "parse_instr line = (op, dest, srcs)" and "dest = Some d"
    then have "parse_instr line = (op, Some d, srcs)" by simp
    then have "d \<in> set (tokens line)" by (rule parse_instr_dest_token)
    then show "CHR ''#'' \<notin> set d" by (rule tokens_no_hash)
  qed
  have c: "parse_instr ''DADDUI R1, R1, #-8'' = (Some ''DADDUI'', Some ''R1'', [''R1''])"
    by code_simp
  from a b c show ?thesis by blast
qed

theorem comment_removed_witness:
  "parse_instr ''DADDUI R1, R1, #-8'' = parse_instr ''DADDUI R1, R1, '' \<and>
   parse_instr ''DADDUI R1, R1, #-8'' = (Some ''DADDUI'', Some ''R1'', [''R1'']) \<and>
   CHR ''#'' \<notin> set ''R1''"
proof -
  have c: "parse_instr ''DADDUI R1, R1, #-8'' = (Some ''DADDUI'', Some ''R1'', [''R1''])"
    by code_simp
  from comment_removed[of "''DADDUI R1, R1, ''" "''-8''" "''DADDUI R1, R1, #-8''"
      "Some ''DADDUI''" "Some ''R1''" "[''R1'']"] c
  show ?thesis by simp
qed

section \<open>Runs without dependencies, and blank input\<close>

text \<open>
  With no dependency between the lines there are no stalls and the elapsed cycles are the
  number of executed lines; the summary, however, prints the number of lines of the text,
  which also counts labels and blank lines, and is 1 for a blank text.
\<close>

lemma required_wait_none:
  assumes "\<forall>s \<in> set srcs. tbl s = None"
  shows "required_wait tbl cur srcs = 0"
proof -
  from assms have "filter (\<lambda>s. tbl s \<noteq> None) srcs = []" by (simp add: filter_empty_conv)
  then show ?thesis by (simp add: required_wait_def pending_waits_def)
qed

lemma process_line_not_executed:
  assumes "\<not> executed raw"
  shows "reg_ready_cycle (process_line st raw) = reg_ready_cycle st \<and>
         current_cycle (process_line st raw) = current_cycle st \<and>
         total_stalls (process_line st raw) = total_stalls st"
proof (cases "strip raw = []")
  case True
  then show ?thesis by (simp add: process_line_blank)
next
  case False
  obtain op dest srcs where p: "parse_instr (strip raw) = (op, dest, srcs)"
    by (cases "parse_instr (strip raw)")
  with assms False have "op = Some ''LABEL''" by (simp add: executed_def)
  with p False show ?thesis by (simp add: process_line_label)
qed

lemma no_dependency_run:
  "dom (reg_ready_cycle st) \<subseteq> ds \<Longrightarrow> no_dependency ds ls \<Longrightarrow>
   total_stalls (run_lines st ls) = total_stalls st \<and>
   current_cycle (run_lines st ls) = current_cycle st + int (length (filter executed ls))"
proof (induction ls arbitrary: st ds)
  case Nil
  then show ?case by (simp add: run_lines_def)
next
  case (Cons raw rest)
  have step: "run_lines st (raw # rest) = run_lines (process_line st raw) rest"
    by (simp add: run_lines_def)
  show ?case
  proof (cases "executed raw")
    case False
    note same = process_line_not_executed[OF False, of st]
    from Cons.prems(1) same have d: "dom (reg_ready_cycle (process_line st raw)) \<subseteq> ds" by simp
    from Cons.prems(2) False have n: "no_dependency ds rest" by simp
    from Cons.IH[OF d n] same False show ?thesis unfolding step by simp
  next
    case True
    obtain op dest srcs where p: "parse_instr (strip raw) = (op, dest, srcs)"
      by (cases "parse_instr (strip raw)")
    from True p have ne: "strip raw \<noteq> []" and nl: "op \<noteq> Some ''LABEL''"
      by (simp_all add: executed_def)
    let ?ds = "case dest of None \<Rightarrow> ds | Some d \<Rightarrow> insert d ds"
    from Cons.prems(2) True p have free: "\<forall>s \<in> set srcs. s \<notin> ds"
      and n: "no_dependency ?ds rest" by simp_all
    from free Cons.prems(1) have "\<forall>s \<in> set srcs. reg_ready_cycle st s = None" by blast
    then have w: "required_wait (reg_ready_cycle st) (current_cycle st) srcs = 0"
      by (rule required_wait_none)
    have eq: "process_line st raw = issue st (strip raw) op dest srcs"
      by (rule process_line_issue[OF p ne nl])
    have s: "total_stalls (process_line st raw) = total_stalls st"
      and c: "current_cycle (process_line st raw) = current_cycle st + 1"
      unfolding eq by (simp_all add: issue_eq Let_def w)
    have d: "dom (reg_ready_cycle (process_line st raw)) \<subseteq> ?ds"
      unfolding eq using Cons.prems(1)
      by (cases dest) (auto simp: issue_eq Let_def w split: if_splits)
    from Cons.IH[OF d n] s c True show ?thesis unfolding step by simp
  qed
qed

lemma no_dependency_analyze:
  assumes "no_dependency {} (code_lines code_str)"
  shows "stall_count (fst (analyze sim code_str title)) = 0 \<and>
         exec_cycles (fst (analyze sim code_str title)) =
           int (length (filter executed (code_lines code_str)))"
proof -
  have "dom (reg_ready_cycle initial_state) \<subseteq> {}" by (simp add: initial_state_def)
  from no_dependency_run[OF this assms] show ?thesis
    by (simp add: analyze_def Let_def initial_state_def)
qed

lemma strip_blank:
  assumes "\<forall>c \<in> set s. is_space c"
  shows "strip s = []"
  using assms by (auto simp: strip_def dest: set_dropWhileD)

lemma blank_input_report:
  assumes "\<forall>c \<in> set code_str. is_space c"
  shows "fst (analyze sim code_str title) =
     \<lparr>heading = title, rows = [], instr_count = 1, stall_count = 0, exec_cycles = 0\<rparr>"
proof -
  have e: "strip code_str = []" by (rule strip_blank[OF assms])
  have n: "strip [] = []" by (simp add: strip_def)
  show ?thesis
    by (simp add: analyze_def Let_def code_lines_def e run_lines_def
        process_line_def n initial_state_def)
qed

end
